theory Spec2Isabelle
  imports Complex_Main
begin

section \<open>Python strings\<close>

text \<open>
  A Python \<open>str\<close> is a \<^typ>\<open>string\<close>; a character stands for a code point below 256.
  \<open>show_nat\<close> and \<open>show_int\<close> are \<open>str(i)\<close> for a Python integer, as an f-string
  \<open>f"{i}"\<close> and the csv writer format it.
\<close>

definition digit_char :: "nat \<Rightarrow> char" where
  "digit_char d = ''0123456789'' ! d"

function show_nat :: "nat \<Rightarrow> string" where
  "show_nat n = (if n < 10 then [digit_char n] else show_nat (n div 10) @ [digit_char (n mod 10)])"
  by pat_completeness auto
termination
  by (relation "measure id") auto

declare show_nat.simps [simp del]

definition show_int :: "int \<Rightarrow> string" where
  "show_int i = (if i < 0 then CHR ''-'' # show_nat (nat (- i)) else show_nat (nat i))"

definition is_digit :: "char \<Rightarrow> bool" where
  "is_digit c = (c \<in> set ''0123456789'')"

definition endswith :: "string \<Rightarrow> string \<Rightarrow> bool" where
  "endswith s suf = (length suf \<le> length s \<and> drop (length s - length suf) s = suf)"

text \<open>The truth value of a list that may be \<open>None\<close>.\<close>

definition truthy :: "'a list option \<Rightarrow> bool" where
  "truthy v = (case v of None \<Rightarrow> False | Some xs \<Rightarrow> xs \<noteq> [])"

definition CR :: char where
  "CR = CHR 0x0D"

definition LF :: char where
  "LF = CHR 0x0A"

text \<open>\<open>str.isspace\<close> on the code points below 256, and \<open>str.strip()\<close>.\<close>

definition is_space :: "char \<Rightarrow> bool" where
  "is_space c = (of_char c \<in> set [9, 10, 11, 12, 13, 28, 29, 30, 31, 32, 133, 160 :: nat])"

definition strip :: "string \<Rightarrow> string" where
  "strip s = rev (dropWhile is_space (rev (dropWhile is_space s)))"

text \<open>
  \<open>f.readline()\<close> on a file opened in text mode: the line up to its first line ending,
  which universal newlines turn into a single line feed.
\<close>

fun readline :: "string \<Rightarrow> string" where
  "readline [] = []"
| "readline (c # cs) = (if c = LF \<or> c = CR then [LF] else c # readline cs)"

text \<open>\<open>s.replace(old, new)\<close>: every occurrence, leftmost first, not overlapping.\<close>

function str_replace :: "string \<Rightarrow> string \<Rightarrow> string \<Rightarrow> string" where
  "str_replace old new s =
     (if old = [] then new @ concat (map (\<lambda>c. c # new) s)
      else if s = [] then []
      else if take (length old) s = old then new @ str_replace old new (drop (length old) s)
      else hd s # str_replace old new (tl s))"
  by pat_completeness auto
termination
  by (relation "measure (\<lambda>(old, new, s). length s)") auto

declare str_replace.simps [simp del]

text \<open>\<open>os.path.join(a, b)\<close> of posixpath.\<close>

definition os_path_join :: "string \<Rightarrow> string \<Rightarrow> string" where
  "os_path_join a b =
     (if take 1 b = ''/'' then b
      else if a = [] \<or> endswith a ''/'' then a @ b
      else a @ ''/'' @ b)"

section \<open>The ingest API (api/main.py)\<close>

subsection \<open>Paths\<close>

text \<open>Line 11, with the environment variable unset.\<close>

definition DATA_DIR :: string where
  "DATA_DIR = ''data''"

definition fpath :: "string \<Rightarrow> string \<Rightarrow> string" where
  "fpath device kind =
     (if kind = ''meta'' then os_path_join DATA_DIR (device @ ''_meta.json'')
      else
        (let suffix = (if kind = ''clean'' then [] else ''_raw'')
         in os_path_join DATA_DIR (device @ suffix @ ''.csv'')))"

subsection \<open>CSV files\<close>

text \<open>
  A CSV file is the list of the rows given to \<open>csv.writer(f).writerow\<close>, in the order
  written; the first one is the header. A cell is the Python value written: a string, an
  integer or a float. The text on disk is \<open>file_text\<close>: the writer's default dialect
  quotes a field that holds a comma, a double quote, a carriage return or a line feed
  (doubling the double quotes), writes a row of one empty field as two double quotes, and
  ends every row with CR LF. \<open>fstr\<close> is \<open>str\<close> of a Python float, a parameter of the
  model: no digit of it matters here.
\<close>

datatype cell = CStr string | CInt int | CFloat real

type_synonym csv_file = "cell list list"

fun cell_str :: "(real \<Rightarrow> string) \<Rightarrow> cell \<Rightarrow> string" where
  "cell_str fstr (CStr s) = s"
| "cell_str fstr (CInt i) = show_int i"
| "cell_str fstr (CFloat r) = fstr r"

definition needs_quote :: "string \<Rightarrow> bool" where
  "needs_quote s = list_ex (\<lambda>c. c \<in> set [CHR '','', CHR 0x22, CR, LF]) s"

definition csv_field :: "string \<Rightarrow> string" where
  "csv_field s =
     (if needs_quote s
      then [CHR 0x22] @ concat (map (\<lambda>c. if c = CHR 0x22 then [c, c] else [c]) s) @ [CHR 0x22]
      else s)"

fun join_comma :: "string list \<Rightarrow> string" where
  "join_comma [] = []"
| "join_comma [x] = x"
| "join_comma (x # y # ys) = x @ '','' @ join_comma (y # ys)"

definition csv_line :: "(real \<Rightarrow> string) \<Rightarrow> cell list \<Rightarrow> string" where
  "csv_line fstr r =
     (if map (cell_str fstr) r = [[]] then [CHR 0x22, CHR 0x22]
      else join_comma (map (\<lambda>c. csv_field (cell_str fstr c)) r))"

definition file_text :: "(real \<Rightarrow> string) \<Rightarrow> csv_file \<Rightarrow> string" where
  "file_text fstr f = concat (map (\<lambda>r. csv_line fstr r @ [CR, LF]) f)"

text \<open>
  Python's \<open>str\<close> of a float that is a whole number of magnitude below \<open>10^16\<close>, the only
  floats of the closed examples below.
\<close>

definition str_whole :: "real \<Rightarrow> string" where
  "str_whole r = show_int \<lfloor>r\<rfloor> @ ''.0''"

subsection \<open>The store\<close>

text \<open>
  The data directory: the CSV files by path, and the metadata files (the names they hold)
  by path. CSV paths end in \<open>.csv\<close> and metadata paths in \<open>.json\<close>, so one never stands
  for the other. No file operation fails.
\<close>

record store =
  csvs :: "string \<rightharpoonup> csv_file"
  metas :: "string \<rightharpoonup> string list"

definition empty_store :: store where
  "empty_store = \<lparr>csvs = Map.empty, metas = Map.empty\<rparr>"

text \<open>\<open>os.replace(src, dst)\<close>: \<open>dst\<close> is overwritten; the same path twice changes nothing.\<close>

definition os_replace :: "string \<Rightarrow> string \<Rightarrow> store \<Rightarrow> store" where
  "os_replace src dst st =
     (if src = dst then st
      else st\<lparr>csvs := (csvs st)(dst := csvs st src, src := None)\<rparr>)"

text \<open>Line 28: the name a file is archived under.\<close>

definition legacy :: "string \<Rightarrow> string" where
  "legacy path = str_replace ''.csv'' ''_legacy.csv'' path"

text \<open>Line 26. \<open>not header\<close> is true of the empty string only.\<close>

definition header_cols :: "string \<Rightarrow> nat" where
  "header_cols header = (if header = [] then 0 else count_list header (CHR '','') + 1)"

text \<open>Lines 21-30.\<close>

definition rotate_if_mismatch :: "(real \<Rightarrow> string) \<Rightarrow> string \<Rightarrow> nat \<Rightarrow> store \<Rightarrow> store" where
  "rotate_if_mismatch fstr path expected_cols st =
     (case csvs st path of
        None \<Rightarrow> st
      | Some f \<Rightarrow>
          (let header = strip (readline (file_text fstr f));
               actual = header_cols header
           in if actual \<noteq> expected_cols
              then os_replace path (legacy path) st
              else st))"

text \<open>\<open>open(path, "w")\<close> then one \<open>writerow\<close>; \<open>open(path, "a")\<close> then one \<open>writerow\<close>.\<close>

definition write_row :: "string \<Rightarrow> cell list \<Rightarrow> store \<Rightarrow> store" where
  "write_row path r st = st\<lparr>csvs := (csvs st)(path \<mapsto> [r])\<rparr>"

definition append_row :: "string \<Rightarrow> cell list \<Rightarrow> store \<Rightarrow> store" where
  "append_row path r st =
     st\<lparr>csvs := (csvs st)(path \<mapsto> (case csvs st path of None \<Rightarrow> [] | Some f \<Rightarrow> f) @ [r])\<rparr>"

subsection \<open>The request body\<close>

text \<open>
  A well-typed body of \<open>POST /ingest\<close>: \<open>device\<close> a string, \<open>ts\<close> a number, \<open>names\<close> a
  list of strings, each of them possibly absent (\<open>data.get\<close> then gives \<open>None\<close>, as it
  does for a JSON null); \<open>temps\<close> and \<open>raw\<close> absent, some JSON value that is not a list,
  or a list of numbers and nulls. JSON numbers are Python integers or floats.
\<close>

datatype jnum = JInt int | JFloat real

fun py_float :: "jnum \<Rightarrow> real" where
  "py_float (JInt i) = of_int i"
| "py_float (JFloat r) = r"

text \<open>\<open>int(x)\<close> truncates a float toward zero.\<close>

fun py_int :: "jnum \<Rightarrow> int" where
  "py_int (JInt i) = i"
| "py_int (JFloat r) = (if r < 0 then \<lceil>r\<rceil> else \<lfloor>r\<rfloor>)"

datatype 'a jfield = Absent | NotList | IsList "'a list"

record payload =
  p_device :: "string option"
  p_ts :: "jnum option"
  p_names :: "string list option"
  p_temps :: "jnum option jfield"
  p_raw :: "jnum option jfield"

text \<open>\<open>data.get(key, default)\<close> for a key whose value is no list, and \<open>data.get(key, [])\<close>.\<close>

definition get_or :: "'a option \<Rightarrow> 'a \<Rightarrow> 'a" where
  "get_or v d = (case v of None \<Rightarrow> d | Some x \<Rightarrow> x)"

fun get_or_empty :: "'a jfield \<Rightarrow> 'a jfield" where
  "get_or_empty Absent = IsList []"
| "get_or_empty v = v"

fun isinstance_list :: "'a jfield \<Rightarrow> bool" where
  "isinstance_list (IsList xs) = True"
| "isinstance_list v = False"

fun elems :: "'a jfield \<Rightarrow> 'a list" where
  "elems (IsList xs) = xs"
| "elems v = []"

datatype body = Failed bool string | Saved bool nat

type_synonym response = "nat \<times> body"

subsection \<open>The endpoints\<close>

text \<open>Line 58.\<close>

definition ts_seconds :: "jnum \<Rightarrow> int" where
  "ts_seconds ts_ms = \<lfloor>py_float ts_ms / 1000 + 0.5\<rfloor>"

text \<open>Lines 71-72 and 77-78, for the suffix \<open>_C\<close> or \<open>_raw\<close>.\<close>

definition header_row :: "string \<Rightarrow> string list option \<Rightarrow> nat \<Rightarrow> cell list" where
  "header_row sfx names n =
     [CStr ''ts_s'', CStr ''ts_ms''] @
     (if truthy names \<and> length (the names) = n
      then map (\<lambda>nm. CStr (nm @ sfx)) (the names)
      else map (\<lambda>i. CStr (''t'' @ show_nat i @ sfx)) [0..<n])"

text \<open>Lines 91 and 96.\<close>

definition data_row :: "int \<Rightarrow> jnum \<Rightarrow> jnum option list \<Rightarrow> cell list" where
  "data_row ts_s ts_ms vs =
     [CInt ts_s, CInt (py_int ts_ms)] @
     map (\<lambda>v. case v of None \<Rightarrow> CStr [] | Some x \<Rightarrow> CFloat (py_float x)) vs"

text \<open>Line 55: \<open>ts_ms is None or not isinstance(temps, list) or len(temps) == 0\<close>.\<close>

definition bad_payload :: "jnum option \<Rightarrow> 'a jfield \<Rightarrow> bool" where
  "bad_payload ts_ms temps =
     (if ts_ms = None then True
      else if isinstance_list temps then length (elems temps) = 0
      else True)"

text \<open>Lines 64-87: rotation, headers, metadata.\<close>

definition prepare :: "(real \<Rightarrow> string) \<Rightarrow> store \<Rightarrow> string \<Rightarrow> string list option \<Rightarrow> nat \<Rightarrow> store" where
  "prepare fstr st device names n =
     (let clean_csv = fpath device ''clean'';
          raw_csv = fpath device ''raw'';
          meta_json = fpath device ''meta'';
          st1 = rotate_if_mismatch fstr clean_csv (2 + n) st;
          st2 = rotate_if_mismatch fstr raw_csv (2 + n) st1;
          st3 = (if csvs st2 clean_csv = None
                 then write_row clean_csv (header_row ''_C'' names n) st2 else st2);
          st4 = (if csvs st3 raw_csv = None
                 then write_row raw_csv (header_row ''_raw'' names n) st3 else st3)
      in if truthy names \<and> metas st4 meta_json = None
         then st4\<lparr>metas := (metas st4)(meta_json \<mapsto> the names)\<rparr> else st4)"

text \<open>Lines 58-100, once the payload has passed line 55.\<close>

definition save :: "(real \<Rightarrow> string) \<Rightarrow> store \<Rightarrow> string \<Rightarrow> jnum \<Rightarrow> string list option \<Rightarrow>
    jnum option list \<Rightarrow> jnum option jfield \<Rightarrow> store \<times> response" where
  "save fstr st device ts_ms names temps raw =
     (let ts_s = ts_seconds ts_ms;
          clean_csv = fpath device ''clean'';
          raw_csv = fpath device ''raw'';
          n = length temps;
          st5 = prepare fstr st device names n;
          st6 = append_row clean_csv (data_row ts_s ts_ms temps) st5;
          st7 = (if isinstance_list raw \<and> length (elems raw) = n
                 then append_row raw_csv (data_row ts_s ts_ms (elems raw)) st6 else st6)
      in (st7, (200, Saved True n)))"

text \<open>Lines 37-100.\<close>

definition ingest :: "(real \<Rightarrow> string) \<Rightarrow> store \<Rightarrow> payload \<Rightarrow> store \<times> response" where
  "ingest fstr st data =
     (let device = get_or (p_device data) ''unknown'';
          ts_ms = p_ts data;
          names = p_names data;
          temps = get_or_empty (p_temps data);
          raw = get_or_empty (p_raw data)
      in if bad_payload ts_ms temps then (st, (400, Failed False ''bad payload''))
         else save fstr st device (the ts_ms) names (elems temps) raw)"

text \<open>One call after the other, each on the store the one before left.\<close>

definition ingest_all :: "(real \<Rightarrow> string) \<Rightarrow> store \<Rightarrow> payload list \<Rightarrow> store" where
  "ingest_all fstr st ps = fold (\<lambda>p s. fst (ingest fstr s p)) ps st"

text \<open>
  What line 27 tests: the file at \<open>path\<close> exists and its first line does not have
  \<open>expected_cols\<close> columns.
\<close>

definition stale :: "(real \<Rightarrow> string) \<Rightarrow> store \<Rightarrow> string \<Rightarrow> nat \<Rightarrow> bool" where
  "stale fstr st path expected_cols =
     (case csvs st path of
        None \<Rightarrow> False
      | Some f \<Rightarrow> header_cols (strip (readline (file_text fstr f))) \<noteq> expected_cols)"

text \<open>The rows of a series: the rows of its file after the header, none when there is no file.\<close>

definition series_rows :: "store \<Rightarrow> string \<Rightarrow> cell list list" where
  "series_rows st path = (case csvs st path of None \<Rightarrow> [] | Some f \<Rightarrow> tl f)"

text \<open>Lines 103-115: the status and the body of the response.\<close>

definition get_clean_csv :: "(real \<Rightarrow> string) \<Rightarrow> store \<Rightarrow> string \<Rightarrow> nat \<times> string" where
  "get_clean_csv fstr st device =
     (case csvs st (fpath device ''clean'') of
        None \<Rightarrow> (404, [])
      | Some f \<Rightarrow> (200, file_text fstr f))"


text \<open>
  A file is aligned when every row after its header has as many fields as the header.
\<close>

definition aligned :: "csv_file \<Rightarrow> bool" where
  "aligned f = (case f of [] \<Rightarrow> True | h # rs \<Rightarrow> list_all (\<lambda>r. length r = length h) rs)"

text \<open>
  A plain name needs no quoting by the csv writer. A file is good when it has a header,
  line 26 counts in its first line as many columns as the header has fields, and it is
  aligned.
\<close>

definition plain :: "string \<Rightarrow> bool" where
  "plain s = (\<not> needs_quote s)"

definition plain_names :: "payload \<Rightarrow> bool" where
  "plain_names p = list_all plain (get_or (p_names p) [])"

definition good :: "(real \<Rightarrow> string) \<Rightarrow> csv_file \<Rightarrow> bool" where
  "good fstr f =
     (f \<noteq> [] \<and> header_cols (strip (readline (file_text fstr f))) = length (hd f) \<and> aligned f)"

definition all_good :: "(real \<Rightarrow> string) \<Rightarrow> store \<Rightarrow> bool" where
  "all_good fstr st = (\<forall>path f. csvs st path = Some f \<longrightarrow> good fstr f)"

text \<open>Request bodies for the closed examples.\<close>

definition one_sensor :: payload where
  "one_sensor = \<lparr>p_device = Some ''d'', p_ts = Some (JInt 1500), p_names = None,
     p_temps = IsList [Some (JFloat 1)], p_raw = IsList [Some (JFloat 85)]\<rparr>"

definition two_sensors :: payload where
  "two_sensors = \<lparr>p_device = Some ''d'', p_ts = Some (JInt 3000), p_names = None,
     p_temps = IsList [Some (JFloat 1), Some (JFloat 2)], p_raw = Absent\<rparr>"

definition comma_name :: payload where
  "comma_name = \<lparr>p_device = Some ''d'', p_ts = Some (JInt 0), p_names = Some [''a,b''],
     p_temps = IsList [Some (JFloat 1)], p_raw = Absent\<rparr>"

definition dotted_two :: payload where
  "dotted_two = \<lparr>p_device = Some ''a.csv'', p_ts = Some (JInt 0), p_names = None,
     p_temps = IsList [Some (JFloat 1), Some (JFloat 2)], p_raw = Absent\<rparr>"

section \<open>The dashboard: reconstruction of the displayed series (dashboard/app.py)\<close>

text \<open>
  The data frame read from \<open>clean.csv\<close> is a list of rows in file order, its index the
  positions \<open>0, 1, ...\<close>. A row holds the time axis \<open>abs_s\<close> (lines 41-44) and the values
  of the value columns; a missing value (NaN) is \<open>None\<close>. Python floats are taken as real
  numbers.
\<close>

record row =
  abs_s :: real
  vals :: "real option list"

record wrow = row +
  time_s :: real

datatype error = IndexError | NoSensorColumns

text \<open>\<open>df["abs_s"].diff().fillna(0) < 0\<close>: the first difference is missing, so 0.\<close>

definition diff_decreasing :: "real list \<Rightarrow> bool list" where
  "diff_decreasing xs =
     map (\<lambda>i. if i = 0 then False else xs ! i - xs ! (i - 1) < 0) [0..<length xs]"

text \<open>Lines 47-51, the reset handling.\<close>

definition reset_trim :: "bool \<Rightarrow> row list \<Rightarrow> row list" where
  "reset_trim trim_reset df =
     (if trim_reset \<and> length df > 1 then
        (let dec = diff_decreasing (map abs_s df) in
         if list_ex id dec then
           (let last = Max (set (filter (\<lambda>i. dec ! i) [0..<length df]))
            in drop (last + 1) df)
         else df)
      else df)"

text \<open>
  Lines 54-57, the last \<open>mins\<close> minutes. \<open>iloc[-1]\<close> raises IndexError on an empty frame.
\<close>

definition window :: "nat \<Rightarrow> row list \<Rightarrow> error + wrow list" where
  "window mins df =
     (if df = [] then Inl IndexError
      else
        (let now_s = abs_s (last df);
             cut = now_s - real mins * 60;
             kept = filter (\<lambda>r. abs_s r \<ge> cut) df;
             m = Min (set (map abs_s kept))
         in Inr (map (\<lambda>r. row.extend r \<lparr>time_s = abs_s r - m\<rparr>) kept)))"

definition reconstruct :: "bool \<Rightarrow> nat \<Rightarrow> row list \<Rightarrow> error + wrow list" where
  "reconstruct trim_reset mins df = window mins (reset_trim trim_reset df)"

text \<open>Lines 60-62: the value columns, of which there must be one.\<close>

definition sensor_columns :: "string list \<Rightarrow> error + string list" where
  "sensor_columns columns =
     (let val_cols = filter (\<lambda>c. endswith c ''_C'') columns
      in if val_cols = [] then Inl NoSensorColumns else Inr val_cols)"

text \<open>
  Lines 73-84. \<open>tpat\<close> is \<open>^t(\d+)_C$\<close>; in Python \<open>$\<close> also matches before a final
  newline. \<open>rename_map\<close> is the dict built by the two loops, \<open>None\<close> where it has no key.
\<close>

definition tpat_match :: "string \<Rightarrow> bool" where
  "tpat_match col =
     (case col of
        [] \<Rightarrow> False
      | c # rest \<Rightarrow>
          c = CHR ''t'' \<and> takeWhile is_digit rest \<noteq> [] \<and>
          dropWhile is_digit rest \<in> set [''_C'', ''_C'' @ [CHR 0x0A]])"

definition rename_map :: "string list option \<Rightarrow> string list \<Rightarrow> (string \<rightharpoonup> string)" where
  "rename_map name_overrides val_cols =
     (if truthy name_overrides \<and> length (the name_overrides) = length val_cols then
        fold (\<lambda>(i, col) m. if tpat_match col then m(col \<mapsto> (the name_overrides ! i) @ ''_C'') else m)
          (enumerate 0 val_cols) Map.empty
      else if list_all tpat_match val_cols then
        fold (\<lambda>(i, col) m. m(col \<mapsto> ''Sensor'' @ show_nat (i + 1) @ ''_C''))
          (enumerate 0 val_cols) Map.empty
      else Map.empty)"

text \<open>\<open>rename_map.get(c, c)\<close>, which is also what \<open>df.rename(columns=rename_map)\<close> does to a column.\<close>

definition get_or_self :: "(string \<rightharpoonup> string) \<Rightarrow> string \<Rightarrow> string" where
  "get_or_self m c = (case m c of None \<Rightarrow> c | Some c' \<Rightarrow> c')"

definition renamed_val_cols :: "string list option \<Rightarrow> string list \<Rightarrow> string list" where
  "renamed_val_cols name_overrides val_cols =
     map (get_or_self (rename_map name_overrides val_cols)) val_cols"


text \<open>A frame with the given time axis and no value column, for the closed examples.\<close>

definition frame :: "real list \<Rightarrow> row list" where
  "frame ts = map (\<lambda>t. \<lparr>abs_s = t, vals = []\<rparr>) ts"

section \<open>Properties of the dashboard\<close>

lemma show_nat_digit: "n < 10 \<Longrightarrow> show_nat n = [digit_char n]"
  by (simp add: show_nat.simps)

subsection \<open>Reset trimming\<close>

text \<open>
  C1. With reset trimming enabled, the time axis \<open>[10, 20, 30, 5, 15]\<close> is cut to \<open>[15]\<close>,
  re-zeroed to \<open>[0]\<close>: \<open>df.loc[last+1:]\<close> starts one row after the row at which the
  decreased value 5 first appears, so that row is dropped and not kept as \<open>[5, 15]\<close>. When
  the decrease is at the last row nothing is left, and \<open>iloc[-1]\<close> raises IndexError.
\<close>

theorem reset_trim_drops_first_row_after_reset:
  "map abs_s (reset_trim True (frame [10, 20, 30, 5, 15])) = [15] \<and>
   map abs_s (reset_trim True (frame [10, 20, 30, 5, 15])) \<noteq> [5, 15] \<and>
   map time_s (projr (reconstruct True mins (frame [10, 20, 30, 5, 15]))) = [0] \<and>
   reconstruct True mins (frame [10, 5]) = Inl IndexError"
  by (simp add: reconstruct_def window_def reset_trim_def diff_decreasing_def frame_def
      row.extend_def upt_rec Let_def)

text \<open>After the reset handling the time axis does not decrease.\<close>

lemma diff_decreasing_nth:
  "i < length xs \<Longrightarrow> diff_decreasing xs ! i = (0 < i \<and> xs ! i < xs ! (i - 1))"
  by (auto simp: diff_decreasing_def)

lemma sorted_after_last_decrease:
  fixes xs :: "real list"
  assumes "\<forall>j. l < j \<and> j < length xs \<longrightarrow> \<not> diff_decreasing xs ! j"
  shows "sorted (drop (l + 1) xs)"
  unfolding sorted_iff_nth_Suc
proof (intro allI impI)
  fix i
  assume "Suc i < length (drop (l + 1) xs)"
  then have j: "l + 2 + i < length xs"
    by simp
  then have "\<not> diff_decreasing xs ! (l + 2 + i)"
    using assms by simp
  then have "xs ! (l + 1 + i) \<le> xs ! (l + 2 + i)"
    using j by (simp add: diff_decreasing_nth)
  then show "drop (l + 1) xs ! i \<le> drop (l + 1) xs ! Suc i"
    using j by (simp add: ac_simps)
qed

lemma length_diff_decreasing: "length (diff_decreasing xs) = length xs"
  by (simp add: diff_decreasing_def)

lemma reset_trim_sorted: "sorted (map abs_s (reset_trim True df))"
proof -
  let ?xs = "map abs_s df"
  let ?dec = "diff_decreasing ?xs"
  let ?S = "set (filter (\<lambda>i. ?dec ! i) [0..<length df])"
  have S: "j \<in> ?S \<longleftrightarrow> j < length df \<and> ?dec ! j" for j
    by simp
  show ?thesis
  proof (cases "length df > 1 \<and> list_ex id ?dec")
    case True
    then obtain i where "i < length df" "?dec ! i"
      unfolding list_ex_length length_diff_decreasing by auto
    then have "i \<in> ?S"
      unfolding S by simp
    have "\<not> ?dec ! j" if "Max ?S < j" "j < length ?xs" for j
    proof
      assume "?dec ! j"
      then have "j \<in> ?S"
        unfolding S using that by simp
      then have "j \<le> Max ?S"
        by (intro Max_ge) (rule finite_set)
      then show False
        using that by simp
    qed
    then have "sorted (drop (Max ?S + 1) ?xs)"
      by (intro sorted_after_last_decrease) blast
    moreover have "reset_trim True df = drop (Max ?S + 1) df"
      unfolding reset_trim_def Let_def using True by (simp only: if_True simp_thms)
    ultimately show ?thesis
      by (simp only: drop_map)
  next
    case False
    have "sorted ?xs"
    proof (cases "length df > 1")
      case True
      then have none: "\<not> list_ex id ?dec"
        using False by simp
      have "?xs ! i \<le> ?xs ! Suc i" if "Suc i < length ?xs" for i
      proof -
        have "\<not> ?dec ! Suc i"
          using none that unfolding list_ex_length length_diff_decreasing by auto
        then show ?thesis
          using that by (simp add: diff_decreasing_nth not_less)
      qed
      then show ?thesis
        unfolding sorted_iff_nth_Suc by blast
    next
      case False
      then have "length df = 0 \<or> length df = 1"
        by arith
      then show ?thesis
        by (cases df) auto
    qed
    moreover have "reset_trim True df = df"
    proof (cases "length df > 1")
      case True
      then have "\<not> list_ex id ?dec"
        using False by simp
      then show ?thesis
        by (simp only: reset_trim_def Let_def True if_True if_False simp_thms)
    next
      case False
      then show ?thesis
        by (simp only: reset_trim_def Let_def if_False simp_thms)
    qed
    ultimately show ?thesis
      by simp
  qed
qed

subsection \<open>Display rounding\<close>



subsection \<open>Windowing\<close>

lemma sorted_hd_Min: "sorted xs \<Longrightarrow> xs \<noteq> [] \<Longrightarrow> Min (set xs) = hd (xs :: real list)"
  by (cases xs) (auto intro!: Min_eqI)

lemma window_Inr:
  fixes mins :: nat
  assumes "df \<noteq> []"
  defines "kept \<equiv> filter (\<lambda>r. abs_s (last df) - real mins * 60 \<le> abs_s r) df"
  shows "window mins df =
           Inr (map (\<lambda>r. row.extend r \<lparr>time_s = abs_s r - Min (set (map abs_s kept))\<rparr>) kept)"
    and "last df \<in> set kept"
  using assms by (simp_all add: window_def Let_def)

text \<open>
  C8, as the code has it. For every non-empty series and window length \<open>mins\<close>, with \<open>now\<close>
  the last row's time, exactly the rows with time \<open>\<ge> now - mins * 60\<close> are kept, in order,
  and the time axis is re-zeroed by subtracting the smallest kept time: every new time is
  \<open>\<ge> 0\<close> and some row has time 0. The first kept row has time 0 when the time axis is
  non-decreasing, as it is after the reset handling. For \<open>mins = 1\<close> and times \<open>[0, 30, 61, 90]\<close> the kept rows are
  \<open>[30, 61, 90]\<close>, re-zeroed to \<open>[0, 31, 60]\<close>.
\<close>

theorem window_keeps_recent_rows:
  assumes "df \<noteq> []"
  shows "\<exists>ws. window mins df = Inr ws \<and> ws \<noteq> [] \<and>
           map row.truncate ws = filter (\<lambda>r. abs_s (last df) - real mins * 60 \<le> abs_s r) df \<and>
           list_all (\<lambda>w. time_s w = abs_s w - Min (set (map abs_s ws))) ws \<and>
           list_all (\<lambda>w. 0 \<le> time_s w) ws \<and>
           list_ex (\<lambda>w. time_s w = 0) ws \<and>
           (sorted (map abs_s df) \<longrightarrow> time_s (hd ws) = 0) \<and>
           (\<forall>loaded. df = reset_trim True loaded \<longrightarrow> time_s (hd ws) = 0) \<and>
           window 1 (frame [0, 30, 61, 90]) =
             Inr [\<lparr>abs_s = 30, vals = [], time_s = 0\<rparr>, \<lparr>abs_s = 61, vals = [], time_s = 31\<rparr>,
                  \<lparr>abs_s = 90, vals = [], time_s = 60\<rparr>]"
proof -
  define kept where "kept = filter (\<lambda>r. abs_s (last df) - real mins * 60 \<le> abs_s r) df"
  define m where "m = Min (set (map abs_s kept))"
  define ws where "ws = map (\<lambda>r. row.extend r \<lparr>time_s = abs_s r - m\<rparr>) kept"
  have w: "window mins df = Inr ws"
    using window_Inr(1) [OF assms, of mins] by (simp add: ws_def m_def kept_def)
  have "last df \<in> set kept"
    using assms by (simp add: kept_def)
  then have ne: "kept \<noteq> []"
    by auto
  have times: "map abs_s ws = map abs_s kept"
    by (simp add: ws_def row.extend_def comp_def)
  have trunc: "map row.truncate ws = kept"
    by (auto simp: ws_def row.extend_def row.truncate_def comp_def intro!: map_idI)
  have shift: "list_all (\<lambda>w. time_s w = abs_s w - Min (set (map abs_s ws))) ws"
    unfolding times by (simp add: ws_def m_def list_all_iff row.extend_def)
  have fin: "finite (set (map abs_s kept))" "set (map abs_s kept) \<noteq> {}"
    using ne by auto
  have lower: "list_all (\<lambda>w. 0 \<le> time_s w) ws"
    using fin by (auto simp: ws_def m_def list_all_iff row.extend_def)
  have "m \<in> set (map abs_s kept)"
    unfolding m_def using fin by (rule Min_in)
  then have zero: "list_ex (\<lambda>w. time_s w = 0) ws"
    by (auto simp: ws_def list_ex_iff row.extend_def)
  have first: "time_s (hd ws) = 0" if "sorted (map abs_s df)"
  proof -
    have "sorted (map abs_s kept)"
      using that unfolding kept_def by (simp add: sorted_map sorted_wrt_filter)
    then have "m = hd (map abs_s kept)"
      unfolding m_def using ne by (intro sorted_hd_Min) auto
    then show ?thesis
      using ne by (cases kept) (auto simp: ws_def row.extend_def)
  qed
  have example: "window 1 (frame [0, 30, 61, 90]) =
      Inr [\<lparr>abs_s = 30, vals = [], time_s = 0\<rparr>, \<lparr>abs_s = 61, vals = [], time_s = 31\<rparr>,
           \<lparr>abs_s = 90, vals = [], time_s = 60\<rparr>]"
    by (simp add: window_def frame_def row.extend_def Let_def)
  have trimmed: "time_s (hd ws) = 0" if "df = reset_trim True loaded" for loaded
    using first reset_trim_sorted [of loaded] that by simp
  from w ne trunc shift lower zero first trimmed example show ?thesis
    by (intro exI [of _ ws]) (auto simp: kept_def ws_def)
qed

theorem window_witness:
  "frame [0, 30, 61, 90] \<noteq> [] \<and>
   (\<exists>ws. window 1 (frame [0, 30, 61, 90]) = Inr ws \<and> ws \<noteq> [] \<and> time_s (hd ws) = 0)"
  using window_keeps_recent_rows [of "frame [0, 30, 61, 90]" 1]
  by (auto simp: frame_def)

text \<open>
  C8 as stated fails on a time axis that decreases (reset trimming is a checkbox, and may
  be off): the first kept row of \<open>[100, 50, 120]\<close> gets time 50, not 0.
\<close>

theorem window_first_row_not_zero:
  "frame [100, 50, 120] \<noteq> [] \<and>
   time_s (hd (projr (window 15 (frame [100, 50, 120])))) = 50"
  by (simp add: window_def frame_def row.extend_def Let_def)

subsection \<open>Column naming\<close>

lemma fold_rename_lookup:
  "distinct (map snd xs) \<Longrightarrow>
   fold (\<lambda>(i, col) m. if P col then m(col \<mapsto> g i) else m) xs m0 c =
     (case find (\<lambda>(i, col). col = c) xs of
        None \<Rightarrow> m0 c
      | Some (i, col) \<Rightarrow> if P c then Some (g i) else m0 c)"
proof (induction xs arbitrary: m0)
  case Nil
  then show ?case by simp
next
  case (Cons x xs)
  obtain i col where x: "x = (i, col)" by (cases x)
  show ?case
  proof (cases "col = c")
    case True
    then have "c \<notin> snd ` set xs"
      using Cons.prems by (simp add: x)
    then have "find (\<lambda>(i, col). col = c) xs = None"
      by (force simp: find_None_iff)
    then show ?thesis
      using Cons.prems Cons.IH True by (simp add: x)
  next
    case False
    then show ?thesis
      using Cons.prems Cons.IH by (auto simp: x split: option.splits)
  qed
qed

lemma find_enumerate:
  "distinct cs \<Longrightarrow> j < length cs \<Longrightarrow>
   find (\<lambda>(i, col). col = cs ! j) (enumerate k cs) = Some (k + j, cs ! j)"
proof (induction cs arbitrary: j k)
  case Nil
  then show ?case by simp
next
  case (Cons c cs)
  show ?case
  proof (cases j)
    case 0
    then show ?thesis by simp
  next
    case (Suc j')
    then have "cs ! j' \<noteq> c"
      using Cons.prems by auto
    then show ?thesis
      using Cons.prems Cons.IH [of j' "Suc k"] Suc by simp
  qed
qed

text \<open>
  C7, as the code has it. The value columns of a frame are distinct. If the list of sensor
  names is not empty and has as many names as there are value columns, every value column
  that follows the pattern \<open>t<digits>_C\<close> is renamed to the name at its position followed by
  \<open>_C\<close>, and the other value columns keep their names; else if all value columns follow
  the pattern, the column at position \<open>i\<close> is renamed to \<open>Sensor{i+1}_C\<close>; else all column
  names are left unchanged.
\<close>

theorem renamed_val_cols_by_position:
  assumes "distinct val_cols"
  shows "renamed_val_cols name_overrides val_cols =
           (if truthy name_overrides \<and> length (the name_overrides) = length val_cols
            then map (\<lambda>(i, col). if tpat_match col then the name_overrides ! i @ ''_C'' else col)
                   (enumerate 0 val_cols)
            else if list_all tpat_match val_cols
            then map (\<lambda>(i, col). ''Sensor'' @ show_nat (i + 1) @ ''_C'') (enumerate 0 val_cols)
            else val_cols)"
proof -
  have d: "distinct (map snd (enumerate 0 val_cols))"
    using assms by simp
  have a: "map (get_or_self (fold (\<lambda>(i, col) m. if P col then m(col \<mapsto> g i) else m)
                  (enumerate 0 val_cols) Map.empty)) val_cols =
           map (\<lambda>(i, col). if P col then g i else col) (enumerate 0 val_cols)" for P g
    by (rule nth_equalityI)
       (simp_all add: get_or_self_def fold_rename_lookup [OF d] find_enumerate [OF assms] nth_enumerate_eq)
  have b: "map (get_or_self (fold (\<lambda>(i, col) m. m(col \<mapsto> g i))
                  (enumerate 0 val_cols) Map.empty)) val_cols =
           map (\<lambda>(i, col). g i) (enumerate 0 val_cols)" for g
    using a [of "\<lambda>_. True" g] by simp
  have c: "map (get_or_self Map.empty) val_cols = val_cols"
    by (simp add: get_or_self_def map_idI)
  show ?thesis
  proof (cases "truthy name_overrides \<and> length (the name_overrides) = length val_cols")
    case True
    have "rename_map name_overrides val_cols =
            fold (\<lambda>(i, col) m. if tpat_match col then m(col \<mapsto> the name_overrides ! i @ ''_C'') else m)
              (enumerate 0 val_cols) Map.empty"
      using True by (simp add: rename_map_def)
    then have "renamed_val_cols name_overrides val_cols =
            map (\<lambda>(i, col). if tpat_match col then the name_overrides ! i @ ''_C'' else col)
              (enumerate 0 val_cols)"
      unfolding renamed_val_cols_def by (simp only: a)
    then show ?thesis
      using True by simp
  next
    case False
    show ?thesis
    proof (cases "list_all tpat_match val_cols")
      case True
      have "rename_map name_overrides val_cols =
              fold (\<lambda>(i, col) m. m(col \<mapsto> ''Sensor'' @ show_nat (i + 1) @ ''_C''))
                (enumerate 0 val_cols) Map.empty"
        by (simp only: rename_map_def False True if_False if_True)
      then have "renamed_val_cols name_overrides val_cols =
              map (\<lambda>(i, col). ''Sensor'' @ show_nat (i + 1) @ ''_C'') (enumerate 0 val_cols)"
        unfolding renamed_val_cols_def by (simp only: b)
      then show ?thesis
        by (simp only: False True if_False if_True)
    next
      case nomatch: False
      have "rename_map name_overrides val_cols = Map.empty"
        by (simp only: rename_map_def False nomatch if_False)
      then show ?thesis
        by (simp only: renamed_val_cols_def c False nomatch if_False)
    qed
  qed
qed

theorem renamed_val_cols_witness:
  "distinct [''t0_C'', ''t1_C''] \<and>
   renamed_val_cols None [''t0_C'', ''t1_C''] = [''Sensor1_C'', ''Sensor2_C'']"
  using renamed_val_cols_by_position [of "[''t0_C'', ''t1_C'']" None]
  by (simp add: truthy_def tpat_match_def is_digit_def show_nat_digit digit_char_def)

text \<open>
  C7 as stated fails when the names are usable and only some value columns follow the
  pattern: those are renamed, although not all columns follow the pattern.
\<close>

theorem renames_some_columns_only:
  "\<not> list_all tpat_match [''t0_C'', ''Room_C''] \<and>
   renamed_val_cols (Some [''A'', ''B'']) [''t0_C'', ''Room_C''] = [''A_C'', ''Room_C'']"
  by (simp add: renamed_val_cols_def rename_map_def truthy_def tpat_match_def is_digit_def get_or_self_def)

section \<open>Properties of the ingest API\<close>

subsection \<open>Paths\<close>

lemma length_str_replace_ge:
  "old \<noteq> [] \<Longrightarrow> length old \<le> length new \<Longrightarrow> length s \<le> length (str_replace old new s)"
proof (induction old new s rule: str_replace.induct)
  case (1 old new s)
  show ?case
  proof (cases "s = []")
    case True
    then show ?thesis by simp
  next
    case False
    show ?thesis
    proof (cases "take (length old) s = old")
      case True
      have "length (drop (length old) s) \<le> length (str_replace old new (drop (length old) s))"
        using 1 False True by simp
      then show ?thesis
        using 1(3,4) False True by (subst str_replace.simps) simp
    next
      case nomatch: False
      have "length (tl s) \<le> length (str_replace old new (tl s))"
        using 1 False nomatch by simp
      then show ?thesis
        using 1(3) False nomatch by (subst str_replace.simps) (cases s; simp)
    qed
  qed
qed

lemma length_str_replace_occurrence:
  "old \<noteq> [] \<Longrightarrow> length old + k \<le> length new \<Longrightarrow>
   length (pre @ old @ post) + k \<le> length (str_replace old new (pre @ old @ post))"
proof (induction pre)
  case Nil
  have "length post \<le> length (str_replace old new post)"
    using Nil by (intro length_str_replace_ge) auto
  then show ?case
    using Nil by (subst str_replace.simps) simp
next
  case (Cons c pre)
  let ?s = "(c # pre) @ old @ post"
  show ?case
  proof (cases "take (length old) ?s = old")
    case True
    have "length (drop (length old) ?s) \<le> length (str_replace old new (drop (length old) ?s))"
      using Cons.prems by (intro length_str_replace_ge) auto
    then show ?thesis
      using Cons.prems True by (subst str_replace.simps) (simp del: append.simps)
  next
    case False
    then show ?thesis
      using Cons by (subst str_replace.simps) simp
  qed
qed

lemma os_path_join_suffix: "\<exists>pre. os_path_join a (b @ s) = pre @ s"
proof -
  have "os_path_join a (b @ s) = b @ s \<or> os_path_join a (b @ s) = (a @ b) @ s \<or>
        os_path_join a (b @ s) = (a @ ''/'' @ b) @ s"
    by (simp add: os_path_join_def)
  then show ?thesis
    by blast
qed

lemma fpath_csv:
  "\<exists>pre. fpath device ''clean'' = pre @ ''.csv''" "\<exists>pre. fpath device ''raw'' = pre @ ''.csv''"
  using os_path_join_suffix [of DATA_DIR device "''.csv''"]
    os_path_join_suffix [of DATA_DIR "device @ ''_raw''" "''.csv''"]
  by (simp_all add: fpath_def)

lemma length_fpath_raw: "length (fpath device ''raw'') = length (fpath device ''clean'') + 4"
  by (cases device) (simp_all add: fpath_def os_path_join_def DATA_DIR_def endswith_def)

lemma length_legacy:
  "length (fpath device ''clean'') + 7 \<le> length (legacy (fpath device ''clean''))"
  "length (fpath device ''raw'') + 7 \<le> length (legacy (fpath device ''raw''))"
proof -
  obtain pre where "fpath device ''clean'' = pre @ ''.csv'' @ []"
    using fpath_csv(1) [of device] by auto
  then show "length (fpath device ''clean'') + 7 \<le> length (legacy (fpath device ''clean''))"
    unfolding legacy_def
    using length_str_replace_occurrence [of "''.csv''" 7 "''_legacy.csv''" pre "[]"] by simp
  obtain pre where "fpath device ''raw'' = pre @ ''.csv'' @ []"
    using fpath_csv(2) [of device] by auto
  then show "length (fpath device ''raw'') + 7 \<le> length (legacy (fpath device ''raw''))"
    unfolding legacy_def
    using length_str_replace_occurrence [of "''.csv''" 7 "''_legacy.csv''" pre "[]"] by simp
qed

lemma paths_differ:
  "fpath device ''clean'' \<noteq> fpath device ''raw''"
  "fpath device ''raw'' \<noteq> fpath device ''clean''"
  "legacy (fpath device ''clean'') \<noteq> fpath device ''clean''"
  "legacy (fpath device ''clean'') \<noteq> fpath device ''raw''"
  "legacy (fpath device ''raw'') \<noteq> fpath device ''clean''"
  "legacy (fpath device ''raw'') \<noteq> fpath device ''raw''"
  "fpath device ''clean'' \<noteq> legacy (fpath device ''clean'')"
  "fpath device ''raw'' \<noteq> legacy (fpath device ''clean'')"
  "fpath device ''clean'' \<noteq> legacy (fpath device ''raw'')"
  "fpath device ''raw'' \<noteq> legacy (fpath device ''raw'')"
  using length_fpath_raw [of device] length_legacy [of device] by auto

subsection \<open>The store\<close>

lemma csvs_write_row: "csvs (write_row path r st) = (csvs st)(path \<mapsto> [r])"
  and metas_write_row: "metas (write_row path r st) = metas st"
  by (simp_all add: write_row_def)

lemma csvs_append_row:
  "csvs (append_row path r st) =
     (csvs st)(path \<mapsto> (case csvs st path of None \<Rightarrow> [] | Some f \<Rightarrow> f) @ [r])"
  and metas_append_row: "metas (append_row path r st) = metas st"
  by (simp_all add: append_row_def)

lemma rotate_if_stale:
  "rotate_if_mismatch fstr path expected_cols st =
     (if stale fstr st path expected_cols then os_replace path (legacy path) st else st)"
  by (simp add: rotate_if_mismatch_def stale_def Let_def split: option.splits)

lemma csvs_os_replace:
  "src \<noteq> dst \<Longrightarrow> csvs (os_replace src dst st) = (csvs st)(dst := csvs st src, src := None)"
  and metas_os_replace: "metas (os_replace src dst st) = metas st"
  by (simp_all add: os_replace_def)

lemma stale_cong: "csvs st path = csvs st' path \<Longrightarrow> stale fstr st path e = stale fstr st' path e"
  by (simp add: stale_def)

lemma stale_exists: "stale fstr st path e \<Longrightarrow> csvs st path \<noteq> None"
  by (auto simp: stale_def split: option.splits)

text \<open>The two files of a device once lines 64-87 have run.\<close>

lemma prepare_files:
  "csvs (prepare fstr st device names n) (fpath device ''clean'') =
     Some (if csvs st (fpath device ''clean'') = None \<or> stale fstr st (fpath device ''clean'') (2 + n)
           then [header_row ''_C'' names n] else the (csvs st (fpath device ''clean'')))"
  "csvs (prepare fstr st device names n) (fpath device ''raw'') =
     Some (if csvs st (fpath device ''raw'') = None \<or> stale fstr st (fpath device ''raw'') (2 + n)
           then [header_row ''_raw'' names n] else the (csvs st (fpath device ''raw'')))"
proof -
  let ?c = "fpath device ''clean''" and ?r = "fpath device ''raw''"
  define st1 where "st1 = rotate_if_mismatch fstr ?c (2 + n) st"
  define st2 where "st2 = rotate_if_mismatch fstr ?r (2 + n) st1"
  define st3 where "st3 = (if csvs st2 ?c = None then write_row ?c (header_row ''_C'' names n) st2 else st2)"
  define st4 where "st4 = (if csvs st3 ?r = None then write_row ?r (header_row ''_raw'' names n) st3 else st3)"
  have p: "csvs (prepare fstr st device names n) = csvs st4"
    unfolding prepare_def Let_def st1_def [symmetric] st2_def [symmetric] st3_def [symmetric]
      st4_def [symmetric]
    by simp
  have c1: "csvs st1 ?c = (if stale fstr st ?c (2 + n) then None else csvs st ?c)"
    unfolding st1_def rotate_if_stale by (simp add: csvs_os_replace paths_differ)
  have r1: "csvs st1 ?r = csvs st ?r"
    unfolding st1_def rotate_if_stale by (simp add: csvs_os_replace paths_differ)
  then have s: "stale fstr st1 ?r (2 + n) = stale fstr st ?r (2 + n)"
    by (rule stale_cong)
  have c2: "csvs st2 ?c = csvs st1 ?c"
    unfolding st2_def rotate_if_stale by (simp add: csvs_os_replace paths_differ)
  have r2: "csvs st2 ?r = (if stale fstr st ?r (2 + n) then None else csvs st ?r)"
    unfolding st2_def rotate_if_stale s by (simp add: csvs_os_replace paths_differ r1)
  have c3: "csvs st3 ?c = Some (case csvs st2 ?c of None \<Rightarrow> [header_row ''_C'' names n] | Some f \<Rightarrow> f)"
    unfolding st3_def by (simp add: csvs_write_row split: option.splits)
  have r3: "csvs st3 ?r = csvs st2 ?r"
    unfolding st3_def by (simp add: csvs_write_row paths_differ)
  have c4: "csvs st4 ?c = csvs st3 ?c"
    unfolding st4_def by (simp add: csvs_write_row paths_differ)
  have r4: "csvs st4 ?r = Some (case csvs st3 ?r of None \<Rightarrow> [header_row ''_raw'' names n] | Some f \<Rightarrow> f)"
    unfolding st4_def by (simp add: csvs_write_row split: option.splits)
  show "csvs (prepare fstr st device names n) ?c =
     Some (if csvs st ?c = None \<or> stale fstr st ?c (2 + n)
           then [header_row ''_C'' names n] else the (csvs st ?c))"
    unfolding p c4 c3 c2 c1 by (auto split: option.splits)
  show "csvs (prepare fstr st device names n) ?r =
     Some (if csvs st ?r = None \<or> stale fstr st ?r (2 + n)
           then [header_row ''_raw'' names n] else the (csvs st ?r))"
    unfolding p r4 r3 r2 by (auto split: option.splits)
qed

lemma save_files:
  "csvs (fst (save fstr st device ts_ms names temps raw)) (fpath device ''clean'') =
     Some (the (csvs (prepare fstr st device names (length temps)) (fpath device ''clean'')) @
           [data_row (ts_seconds ts_ms) ts_ms temps])"
  "csvs (fst (save fstr st device ts_ms names temps raw)) (fpath device ''raw'') =
     Some (the (csvs (prepare fstr st device names (length temps)) (fpath device ''raw'')) @
           (if isinstance_list raw \<and> length (elems raw) = length temps
            then [data_row (ts_seconds ts_ms) ts_ms (elems raw)] else []))"
  unfolding save_def Let_def fst_conv
  by (simp_all add: csvs_append_row paths_differ prepare_files)

subsection \<open>One call\<close>

lemma snd_save: "snd (save fstr st device ts_ms names temps raw) = (200, Saved True (length temps))"
  by (simp only: save_def Let_def snd_conv)

lemma ingest_accepted:
  assumes "fst (snd (ingest fstr st p)) = 200"
  obtains ts_ms v vs where "p_ts p = Some ts_ms" "p_temps p = IsList (v # vs)"
    "ingest fstr st p =
       save fstr st (get_or (p_device p) ''unknown'') ts_ms (p_names p) (v # vs) (get_or_empty (p_raw p))"
proof (cases "p_ts p")
  case None
  then show ?thesis
    using assms by (simp add: ingest_def bad_payload_def Let_def)
next
  case (Some ts_ms)
  show ?thesis
  proof (cases "p_temps p")
    case (IsList xs)
    then show ?thesis
      using assms Some that by (cases xs) (simp_all add: ingest_def bad_payload_def Let_def)
  qed (use assms Some in \<open>simp_all add: ingest_def bad_payload_def Let_def\<close>)
qed

lemma ingest_rejected:
  "fst (snd (ingest fstr st p)) \<noteq> 200 \<Longrightarrow> fst (ingest fstr st p) = st"
  by (simp add: ingest_def Let_def snd_save split: if_splits)

lemma empty_file_stale: "csvs st path = Some [] \<Longrightarrow> stale fstr st path (2 + n)"
  by (simp add: stale_def file_text_def strip_def header_cols_def)

lemmas call_simps = ingest_all_def ingest_def bad_payload_def get_or_def Let_def save_files
  prepare_files empty_store_def

lemmas text_simps = stale_def header_row_def data_row_def truthy_def ts_seconds_def file_text_def
  csv_line_def csv_field_def needs_quote_def strip_def is_space_def header_cols_def CR_def LF_def
  show_nat_digit digit_char_def

lemma ingest_status:
  "fst (snd (ingest fstr st p)) = (if bad_payload (p_ts p) (get_or_empty (p_temps p)) then 400 else 200)"
  by (simp add: ingest_def Let_def snd_save)

lemma accepted_one_sensor: "fst (snd (ingest str_whole empty_store one_sensor)) = 200"
  by (simp add: ingest_status bad_payload_def one_sensor_def)

subsection \<open>Other paths, later calls\<close>

lemma legacy_Nil: "legacy [] = []"
  by (simp add: legacy_def str_replace.simps)

lemma str_replace_match:
  "old \<noteq> [] \<Longrightarrow> take (length old) s = old \<Longrightarrow>
   str_replace old new s = new @ str_replace old new (drop (length old) s)"
  by (subst str_replace.simps) auto

lemma str_replace_skip:
  "old \<noteq> [] \<Longrightarrow> take (length old) (c # s) \<noteq> old \<Longrightarrow>
   str_replace old new (c # s) = c # str_replace old new s"
  by (subst str_replace.simps) auto

lemma legacy_match: "take 4 s = ''.csv'' \<Longrightarrow> legacy s = ''_legacy.csv'' @ legacy (drop 4 s)"
  using str_replace_match [of "''.csv''" s "''_legacy.csv''"]
  by (simp add: legacy_def eval_nat_numeral)

lemma legacy_skip: "take 4 (c # s) \<noteq> ''.csv'' \<Longrightarrow> legacy (c # s) = c # legacy s"
  using str_replace_skip [of "''.csv''" c s "''_legacy.csv''"]
  by (simp add: legacy_def eval_nat_numeral)




lemma prepare_other:
  assumes "q \<noteq> fpath device ''clean''" and "q \<noteq> fpath device ''raw''"
  shows "csvs (prepare fstr st device names n) q =
           (if q = legacy (fpath device ''raw'') \<and> stale fstr st (fpath device ''raw'') (2 + n)
            then csvs st (fpath device ''raw'')
            else if q = legacy (fpath device ''clean'') \<and> stale fstr st (fpath device ''clean'') (2 + n)
            then csvs st (fpath device ''clean'')
            else csvs st q)"
proof -
  let ?c = "fpath device ''clean''" and ?r = "fpath device ''raw''"
  define st1 where "st1 = rotate_if_mismatch fstr ?c (2 + n) st"
  define st2 where "st2 = rotate_if_mismatch fstr ?r (2 + n) st1"
  define st3 where "st3 = (if csvs st2 ?c = None then write_row ?c (header_row ''_C'' names n) st2 else st2)"
  define st4 where "st4 = (if csvs st3 ?r = None then write_row ?r (header_row ''_raw'' names n) st3 else st3)"
  have p: "csvs (prepare fstr st device names n) = csvs st4"
    unfolding prepare_def Let_def st1_def [symmetric] st2_def [symmetric] st3_def [symmetric]
      st4_def [symmetric]
    by simp
  have q1: "csvs st1 q = (if q = legacy ?c \<and> stale fstr st ?c (2 + n) then csvs st ?c else csvs st q)"
    unfolding st1_def rotate_if_stale using assms by (simp add: csvs_os_replace paths_differ)
  have r1: "csvs st1 ?r = csvs st ?r"
    unfolding st1_def rotate_if_stale by (simp add: csvs_os_replace paths_differ)
  then have s: "stale fstr st1 ?r (2 + n) = stale fstr st ?r (2 + n)"
    by (rule stale_cong)
  have q2: "csvs st2 q = (if q = legacy ?r \<and> stale fstr st ?r (2 + n) then csvs st ?r else csvs st1 q)"
    unfolding st2_def rotate_if_stale s using assms by (simp add: csvs_os_replace paths_differ r1)
  have q3: "csvs st3 q = csvs st2 q"
    unfolding st3_def using assms by (simp add: csvs_write_row)
  have q4: "csvs st4 q = csvs st3 q"
    unfolding st4_def using assms by (simp add: csvs_write_row)
  show ?thesis
    unfolding p q4 q3 q2 q1 by simp
qed

lemma save_other:
  assumes "q \<noteq> fpath device ''clean''" and "q \<noteq> fpath device ''raw''"
  shows "csvs (fst (save fstr st device ts_ms names temps raw)) q =
           csvs (prepare fstr st device names (length temps)) q"
  unfolding save_def Let_def fst_conv using assms by (simp add: csvs_append_row)







subsection \<open>Validation\<close>


subsection \<open>The stored seconds\<close>



subsection \<open>Rows appended\<close>

text \<open>
  C4, as the code has it. For every accepted payload with \<open>temps\<close> of length \<open>N\<close>, exactly one
  row is appended to the clean series, and a row is appended to the raw series if and only
  if \<open>raw\<close> is a list of length \<open>N\<close>; each is appended to the series as the rotation of
  this call left it: the rows stored before the call, or no rows when the file was stale
  (its first line did not have \<open>N + 2\<close> columns) and was archived. So when neither file is
  stale and \<open>raw\<close> has another length or is absent, the raw row count is unchanged while the
  clean row count increases by one.
\<close>

theorem rows_appended_after_rotation:
  assumes "fst (snd (ingest fstr st p)) = 200"
  defines "n \<equiv> length (elems (p_temps p))"
    and "clean_csv \<equiv> fpath (get_or (p_device p) ''unknown'') ''clean''"
    and "raw_csv \<equiv> fpath (get_or (p_device p) ''unknown'') ''raw''"
    and "raw \<equiv> get_or_empty (p_raw p)"
    and "st' \<equiv> fst (ingest fstr st p)"
  shows "series_rows st' clean_csv =
           (if stale fstr st clean_csv (2 + n) then [] else series_rows st clean_csv) @
           [data_row (ts_seconds (the (p_ts p))) (the (p_ts p)) (elems (p_temps p))] \<and>
         series_rows st' raw_csv =
           (if stale fstr st raw_csv (2 + n) then [] else series_rows st raw_csv) @
           (if isinstance_list raw \<and> length (elems raw) = n
            then [data_row (ts_seconds (the (p_ts p))) (the (p_ts p)) (elems raw)] else [])"
proof -
  obtain t v vs where a: "p_ts p = Some t" "p_temps p = IsList (v # vs)"
    "ingest fstr st p =
       save fstr st (get_or (p_device p) ''unknown'') t (p_names p) (v # vs) (get_or_empty (p_raw p))"
    using assms(1) by (rule ingest_accepted)
  have n: "n = length (v # vs)"
    by (simp add: n_def a(2))
  have tl_base: "tl ((if csvs st q = None \<or> stale fstr st q (2 + n) then [h] else the (csvs st q)) @ r) =
      (if stale fstr st q (2 + n) then [] else series_rows st q) @ r" for q h r
  proof (cases "csvs st q")
    case None
    then show ?thesis by (simp add: series_rows_def stale_def)
  next
    case (Some f)
    show ?thesis
    proof (cases "stale fstr st q (2 + n)")
      case True
      then show ?thesis by simp
    next
      case False
      then have "f \<noteq> []"
        using Some empty_file_stale [of st q fstr n] by auto
      then show ?thesis
        using Some False by (simp add: series_rows_def)
    qed
  qed
  show ?thesis
    unfolding st'_def a(3) series_rows_def [of "fst (save _ _ _ _ _ _ _)"] clean_csv_def raw_csv_def
      save_files prepare_files option.case option.sel raw_def
    using tl_base by (simp add: n a)
qed

theorem rows_appended_witness:
  "fst (snd (ingest str_whole empty_store one_sensor)) = 200 \<and>
   length (series_rows (fst (ingest str_whole empty_store one_sensor)) (fpath ''d'' ''clean'')) = 1 \<and>
   length (series_rows (fst (ingest str_whole empty_store one_sensor)) (fpath ''d'' ''raw'')) = 1"
  using rows_appended_after_rotation [OF accepted_one_sensor] accepted_one_sensor
  by (simp add: one_sensor_def get_or_def stale_def series_rows_def empty_store_def)

text \<open>
  C4 as stated fails on a call that rotates: after one sensor with a raw value, a payload
  of two sensors without \<open>raw\<close> is accepted, and leaves one clean row (not two) and no raw
  row (not one).
\<close>

theorem rotation_restarts_row_count:
  "fst (snd (ingest str_whole (fst (ingest str_whole empty_store one_sensor)) two_sensors)) = 200 \<and>
   length (series_rows (fst (ingest str_whole empty_store one_sensor)) (fpath ''d'' ''clean'')) = 1 \<and>
   length (series_rows (ingest_all str_whole empty_store [one_sensor, two_sensors]) (fpath ''d'' ''clean'')) = 1 \<and>
   length (series_rows (fst (ingest str_whole empty_store one_sensor)) (fpath ''d'' ''raw'')) = 1 \<and>
   length (series_rows (ingest_all str_whole empty_store [one_sensor, two_sensors]) (fpath ''d'' ''raw'')) = 0"
  by (simp add: snd_save series_rows_def call_simps text_simps one_sensor_def two_sensors_def)

subsection \<open>Rotation\<close>

text \<open>
  What the rotation check does to an existing file, and the legacy name of a path that
  holds \<open>.csv\<close> as its suffix only.
\<close>

lemma legacy_of_suffix_only:
  assumes "\<forall>k<length pre. take 4 (drop k (pre @ ''.csv'')) \<noteq> ''.csv''"
  shows "legacy (pre @ ''.csv'') = pre @ ''_legacy.csv''"
  using assms
proof (induction pre)
  case Nil
  have "legacy ''.csv'' = ''_legacy.csv'' @ legacy (drop 4 ''.csv'')"
    by (rule legacy_match) simp
  then show ?case
    by (simp add: legacy_Nil)
next
  case (Cons c pre)
  have "take 4 (c # pre @ ''.csv'') \<noteq> ''.csv''"
    using Cons.prems by (auto dest: spec [of _ 0])
  then have "legacy (c # pre @ ''.csv'') = c # legacy (pre @ ''.csv'')"
    by (rule legacy_skip)
  moreover have "\<forall>k<length pre. take 4 (drop k (pre @ ''.csv'')) \<noteq> ''.csv''"
    using Cons.prems by (auto dest: spec [of _ "Suc k" for k])
  ultimately show ?case
    using Cons.IH by simp
qed

lemma rotation_check_decides:
  assumes "csvs st path = Some f"
  shows "rotate_if_mismatch fstr path e st =
           (if header_cols (strip (readline (file_text fstr f))) \<noteq> e
            then os_replace path (legacy path) st else st)"
    and "path \<noteq> legacy path \<Longrightarrow>
         csvs (os_replace path (legacy path) st) = (csvs st)(legacy path \<mapsto> f, path := None)"
  using assms by (simp_all add: rotate_if_mismatch_def Let_def os_replace_def)

text \<open>
  C5. The rotation check archives the clean file of the device \<open>a.csv\<close>, whose path is
  \<open>data/a.csv.csv\<close>, under \<open>data/a_legacy.csv_legacy.csv\<close>: \<open>str.replace\<close> rewrites every
  \<open>.csv\<close> of the path. The path with only the suffix replaced, \<open>data/a.csv_legacy.csv\<close>,
  holds no file.
\<close>

theorem legacy_name_replaces_every_csv:
  "fpath ''a.csv'' ''clean'' = ''data/a.csv.csv'' \<and>
   csvs (fst (ingest fstr empty_store dotted_two)) ''data/a.csv.csv'' =
     Some [[CStr ''ts_s'', CStr ''ts_ms'', CStr ''t0_C'', CStr ''t1_C''], [CInt 0, CInt 0, CFloat 1, CFloat 2]] \<and>
   csvs (rotate_if_mismatch fstr ''data/a.csv.csv'' (2 + 1) (fst (ingest fstr empty_store dotted_two)))
     ''data/a_legacy.csv_legacy.csv'' =
     Some [[CStr ''ts_s'', CStr ''ts_ms'', CStr ''t0_C'', CStr ''t1_C''], [CInt 0, CInt 0, CFloat 1, CFloat 2]] \<and>
   csvs (rotate_if_mismatch fstr ''data/a.csv.csv'' (2 + 1) (fst (ingest fstr empty_store dotted_two)))
     ''data/a.csv_legacy.csv'' = None \<and>
   csvs (rotate_if_mismatch fstr ''data/a.csv.csv'' (2 + 1) (fst (ingest fstr empty_store dotted_two)))
     ''data/a.csv.csv'' = None"
proof -
  let ?st = "fst (ingest fstr empty_store dotted_two)"
  let ?f = "[[CStr ''ts_s'', CStr ''ts_ms'', CStr ''t0_C'', CStr ''t1_C''], [CInt 0, CInt 0, CFloat 1, CFloat 2]]"
  have c: "fpath ''a.csv'' ''clean'' = ''data/a.csv.csv''"
    and r: "fpath ''a.csv'' ''raw'' = ''data/a.csv_raw.csv''"
    by (simp_all add: fpath_def os_path_join_def DATA_DIR_def endswith_def)
  have l: "legacy ''data/a.csv.csv'' = ''data/a_legacy.csv_legacy.csv''"
    by (simp add: legacy_def str_replace.simps)
  have "csvs ?st (fpath ''a.csv'' ''clean'') = Some ?f"
    by (simp add: call_simps text_simps dotted_two_def)
  then have held: "csvs ?st ''data/a.csv.csv'' = Some ?f"
    by (simp only: c)
  have s: "?st = fst (save fstr empty_store ''a.csv'' (JInt 0) None [Some (JFloat 1), Some (JFloat 2)] (IsList []))"
    by (simp add: ingest_def bad_payload_def get_or_def dotted_two_def)
  have none: "csvs ?st ''data/a.csv_legacy.csv'' = None"
    unfolding s by (simp add: save_other prepare_other c r empty_store_def)
  have old: "stale fstr ?st ''data/a.csv.csv'' 3"
    by (simp add: stale_def held text_simps)
  show ?thesis
    using c held none by (simp add: rotate_if_stale old csvs_os_replace l)
qed

subsection \<open>Column counts\<close>

text \<open>
  C9. Two accepted calls for one device, the first naming its one sensor \<open>a,b\<close>, the second
  with two sensors: the header written by the first call is \<open>ts_s,ts_ms,"a,b_C"\<close>, three
  fields in which line 26 counts four columns, so the second call does not rotate and
  appends a row of four fields under a header of three.
\<close>

theorem header_with_comma_misaligns:
  "fst (snd (ingest fstr empty_store comma_name)) = 200 \<and>
   fst (snd (ingest fstr (fst (ingest fstr empty_store comma_name)) two_sensors)) = 200 \<and>
   csvs (ingest_all fstr empty_store [comma_name, two_sensors]) (fpath ''d'' ''clean'') =
     Some [[CStr ''ts_s'', CStr ''ts_ms'', CStr ''a,b_C''],
           [CInt 0, CInt 0, CFloat 1],
           [CInt 3, CInt 3000, CFloat 1, CFloat 2]] \<and>
   \<not> aligned (the (csvs (ingest_all fstr empty_store [comma_name, two_sensors]) (fpath ''d'' ''clean'')))"
proof -
  have "csvs (ingest_all fstr empty_store [comma_name, two_sensors]) (fpath ''d'' ''clean'') =
     Some [[CStr ''ts_s'', CStr ''ts_ms'', CStr ''a,b_C''],
           [CInt 0, CInt 0, CFloat 1],
           [CInt 3, CInt 3000, CFloat 1, CFloat 2]]"
    by (simp add: call_simps text_simps comma_name_def two_sensors_def)
  then show ?thesis
    by (simp add: ingest_status bad_payload_def comma_name_def two_sensors_def aligned_def)
qed

subsection \<open>Column counts with plain names\<close>

text \<open>
  When no sensor name holds a comma, a double quote, a carriage return or a line feed,
  every file of a store that started empty stays aligned, the archived ones included.
\<close>

lemma plain_append: "plain (a @ b) = (plain a \<and> plain b)"
  by (simp add: plain_def needs_quote_def)

lemma plain_iff: "plain s = (\<forall>c\<in>set s. c \<noteq> CHR '','' \<and> c \<noteq> CHR 0x22 \<and> c \<noteq> CR \<and> c \<noteq> LF)"
  by (auto simp: plain_def needs_quote_def list_ex_iff)

lemma digit_char_plain: "d < 10 \<Longrightarrow> plain [digit_char d]"
proof -
  assume "d < 10"
  then have "d \<in> {0, 1, 2, 3, 4, 5, 6, 7, 8, 9}"
    by auto
  then show ?thesis
    by (auto simp: digit_char_def plain_iff CR_def LF_def)
qed

lemma show_nat_plain: "plain (show_nat n)"
proof (induction n rule: show_nat.induct)
  case (1 n)
  show ?case
  proof (cases "n < 10")
    case True
    then show ?thesis
      by (simp add: show_nat_digit digit_char_plain)
  next
    case False
    then have "show_nat n = show_nat (n div 10) @ [digit_char (n mod 10)]"
      by (subst show_nat.simps) simp
    then show ?thesis
      using 1 False by (simp add: plain_append digit_char_plain)
  qed
qed

lemma csv_field_plain: "plain s \<Longrightarrow> csv_field s = s"
  by (simp add: csv_field_def plain_def)

lemma count_join_comma:
  "cols \<noteq> [] \<Longrightarrow> list_all plain cols \<Longrightarrow>
   count_list (join_comma cols) (CHR '','') + 1 = length cols"
  by (induction cols rule: join_comma.induct) (auto simp: plain_iff count_list_0_iff)

lemma join_comma_no_newline:
  "list_all plain cols \<Longrightarrow> CR \<notin> set (join_comma cols) \<and> LF \<notin> set (join_comma cols)"
  by (induction cols rule: join_comma.induct) (auto simp: plain_iff CR_def LF_def)

lemma readline_line: "CR \<notin> set xs \<Longrightarrow> LF \<notin> set xs \<Longrightarrow> readline (xs @ CR # ys) = xs @ [LF]"
  by (induction xs) auto

lemma readline_cut: "readline (xs @ CR # ys) = readline (xs @ CR # zs)"
  by (induction xs) auto

lemma count_list_rev: "count_list (rev s) x = count_list s x"
  by (induction s) auto

lemma count_dropWhile: "\<not> P x \<Longrightarrow> count_list (dropWhile P s) x = count_list s x"
  by (induction s) auto

lemma count_strip: "count_list (strip s) (CHR '','') = count_list s (CHR '','')"
  by (simp add: strip_def count_list_rev count_dropWhile is_space_def)

lemma in_dropWhile: "c \<in> set s \<Longrightarrow> \<not> P c \<Longrightarrow> c \<in> set (dropWhile P s)"
  by (induction s) auto

lemma strip_nonempty: "c \<in> set s \<Longrightarrow> \<not> is_space c \<Longrightarrow> strip s \<noteq> []"
proof -
  assume c: "c \<in> set s" "\<not> is_space c"
  then have "c \<in> set (rev (dropWhile is_space s))"
    by (simp add: in_dropWhile)
  then have "c \<in> set (dropWhile is_space (rev (dropWhile is_space s)))"
    using c(2) by (rule in_dropWhile)
  then show ?thesis
    unfolding strip_def by (cases "dropWhile is_space (rev (dropWhile is_space s))") simp_all
qed

lemma header_row_strings:
  assumes "list_all plain (get_or names [])" and "plain sfx"
  obtains cols where "header_row sfx names n = map CStr (''ts_s'' # ''ts_ms'' # cols)"
    "length cols = n" "list_all plain cols"
proof (cases "truthy names \<and> length (the names) = n")
  case True
  then obtain ns where ns: "names = Some ns" "length ns = n"
    by (cases names) (auto simp: truthy_def)
  have "list_all plain (map (\<lambda>nm. nm @ sfx) ns)"
    using assms ns by (simp add: get_or_def list_all_iff plain_append)
  moreover have "header_row sfx names n = map CStr (''ts_s'' # ''ts_ms'' # map (\<lambda>nm. nm @ sfx) ns)"
    using True ns by (simp add: header_row_def comp_def)
  ultimately show ?thesis
    using that [of "map (\<lambda>nm. nm @ sfx) ns"] ns by simp
next
  case False
  have "plain ''t''"
    by (simp add: plain_iff CR_def LF_def)
  then have "list_all plain (map (\<lambda>i. ''t'' @ show_nat i @ sfx) [0..<n])"
    using assms(2) by (simp add: list_all_iff plain_append show_nat_plain del: append.simps)
  moreover have "header_row sfx names n = map CStr (''ts_s'' # ''ts_ms'' # map (\<lambda>i. ''t'' @ show_nat i @ sfx) [0..<n])"
    using False by (auto simp: header_row_def)
  ultimately show ?thesis
    using that [of "map (\<lambda>i. ''t'' @ show_nat i @ sfx) [0..<n]"] by simp
qed

lemma file_text_Cons: "file_text fstr (h # t) = csv_line fstr h @ CR # LF # file_text fstr t"
  by (simp add: file_text_def)

lemma csv_line_plain:
  assumes "list_all plain cols" and "plain a" and "plain b"
  shows "csv_line fstr (map CStr (a # b # cols)) = join_comma (a # b # cols)"
proof -
  have "map (\<lambda>c. csv_field (cell_str fstr c)) (map CStr (a # b # cols)) = a # b # cols"
    using assms by (auto simp: csv_field_plain list_all_iff intro: map_idI)
  then show ?thesis
    by (simp add: csv_line_def)
qed

lemma header_row_cols:
  assumes "list_all plain (get_or names [])" and "plain sfx"
  shows "header_cols (strip (readline (file_text fstr (header_row sfx names n # rest)))) = 2 + n"
    and "length (header_row sfx names n) = 2 + n"
proof -
  obtain cols where c: "header_row sfx names n = map CStr (''ts_s'' # ''ts_ms'' # cols)"
    "length cols = n" "list_all plain cols"
    using assms by (rule header_row_strings)
  let ?fs = "''ts_s'' # ''ts_ms'' # cols"
  have p: "list_all plain ?fs"
    using c(3) by (simp add: plain_iff CR_def LF_def)
  have line: "csv_line fstr (header_row sfx names n) = join_comma ?fs"
    unfolding c(1) using c(3) by (intro csv_line_plain) (simp_all add: plain_iff CR_def LF_def)
  have "readline (file_text fstr (header_row sfx names n # rest)) = join_comma ?fs @ [LF]"
    unfolding file_text_Cons line using join_comma_no_newline [OF p] by (intro readline_line) auto
  moreover have "strip (join_comma ?fs @ [LF]) \<noteq> []"
    by (rule strip_nonempty [of "CHR ''t''"]) (simp_all add: is_space_def)
  moreover have "count_list (join_comma ?fs @ [LF]) (CHR '','') + 1 = length ?fs"
    using count_join_comma [OF _ p] by (simp add: LF_def)
  ultimately show "header_cols (strip (readline (file_text fstr (header_row sfx names n # rest)))) = 2 + n"
    using c(2) by (simp add: header_cols_def count_strip)
  show "length (header_row sfx names n) = 2 + n"
    using c by simp
qed

lemma length_data_row: "length (data_row ts_s ts_ms vs) = 2 + length vs"
  by (simp add: data_row_def)

lemma good_append:
  assumes "good fstr f" and "list_all (\<lambda>r. length r = length (hd f)) rs"
  shows "good fstr (f @ rs)"
proof -
  obtain h t where f: "f = h # t"
    using assms(1) by (cases f) (auto simp: good_def)
  have "readline (file_text fstr (f @ rs)) = readline (file_text fstr f)"
    unfolding f append_Cons file_text_Cons by (rule readline_cut)
  then show ?thesis
    using assms by (simp add: good_def f aligned_def)
qed

lemma good_fresh:
  assumes "list_all plain (get_or names [])" and "plain sfx"
  shows "good fstr [header_row sfx names n]"
  using header_row_cols(1) [OF assms, where rest = "[]"] header_row_cols(2) [OF assms]
  by (simp add: good_def aligned_def)

lemma base_good:
  fixes n :: nat and q :: string
  assumes "all_good fstr st" and "list_all plain (get_or names [])" and "plain sfx"
  defines "b \<equiv> (if csvs st q = None \<or> stale fstr st q (2 + n) then [header_row sfx names n]
                  else the (csvs st q))"
  shows "good fstr b" and "length (hd b) = 2 + n"
proof -
  show "good fstr b"
    using assms(1) good_fresh [OF assms(2,3)] by (auto simp: b_def all_good_def)
  show "length (hd b) = 2 + n"
  proof (cases "csvs st q = None \<or> stale fstr st q (2 + n)")
    case True
    then show ?thesis
      using header_row_cols(2) [OF assms(2,3)] by (simp add: b_def)
  next
    case False
    then obtain f where f: "csvs st q = Some f" "header_cols (strip (readline (file_text fstr f))) = 2 + n"
      by (auto simp: stale_def)
    then have "good fstr f"
      using assms(1) by (simp add: all_good_def)
    then show ?thesis
      using f False by (simp add: b_def good_def)
  qed
qed

lemma plain_suffixes: "plain ''_C''" "plain ''_raw''"
  by (simp_all add: plain_iff CR_def LF_def)

lemma save_good:
  assumes "all_good fstr st" and "list_all plain (get_or names [])"
  shows "all_good fstr (fst (save fstr st device ts_ms names temps raw))"
  unfolding all_good_def
proof (intro allI impI)
  fix q f
  let ?st' = "fst (save fstr st device ts_ms names temps raw)"
  let ?n = "length temps"
  assume q: "csvs ?st' q = Some f"
  consider "q = fpath device ''clean''" | "q = fpath device ''raw''"
    | "q \<noteq> fpath device ''clean''" "q \<noteq> fpath device ''raw''"
    by blast
  then show "good fstr f"
  proof cases
    case 1
    define b where "b = (if csvs st q = None \<or> stale fstr st q (2 + ?n)
      then [header_row ''_C'' names ?n] else the (csvs st q))"
    have "good fstr b" "length (hd b) = 2 + ?n"
      unfolding b_def by (rule base_good [OF assms plain_suffixes(1)])+
    moreover have "f = b @ [data_row (ts_seconds ts_ms) ts_ms temps]"
      using q unfolding 1 b_def by (simp only: save_files prepare_files option.sel option.inject)
    ultimately show ?thesis
      by (simp add: good_append length_data_row)
  next
    case 2
    define b where "b = (if csvs st q = None \<or> stale fstr st q (2 + ?n)
      then [header_row ''_raw'' names ?n] else the (csvs st q))"
    have "good fstr b" "length (hd b) = 2 + ?n"
      unfolding b_def by (rule base_good [OF assms plain_suffixes(2)])+
    moreover have "f = b @ (if isinstance_list raw \<and> length (elems raw) = ?n
        then [data_row (ts_seconds ts_ms) ts_ms (elems raw)] else [])"
      using q unfolding 2 b_def by (simp only: save_files prepare_files option.sel option.inject)
    ultimately show ?thesis
      by (simp add: good_append length_data_row)
  next
    case 3
    then have "csvs ?st' q = csvs st (fpath device ''raw'') \<or>
        csvs ?st' q = csvs st (fpath device ''clean'') \<or> csvs ?st' q = csvs st q"
      by (simp add: save_other prepare_other)
    then show ?thesis
      using q assms(1) by (auto simp: all_good_def)
  qed
qed

lemma ingest_good:
  assumes "all_good fstr st" and "plain_names p"
  shows "all_good fstr (fst (ingest fstr st p))"
proof (cases "fst (snd (ingest fstr st p)) = 200")
  case True
  then show ?thesis
    using assms by (elim ingest_accepted) (simp add: save_good plain_names_def)
next
  case False
  then show ?thesis
    using assms by (simp add: ingest_rejected)
qed

lemma ingest_all_good:
  "all_good fstr st \<Longrightarrow> list_all plain_names ps \<Longrightarrow> all_good fstr (ingest_all fstr st ps)"
proof (induction ps arbitrary: st)
  case Nil
  then show ?case by (simp add: ingest_all_def)
next
  case (Cons p ps)
  then have "all_good fstr (ingest_all fstr (fst (ingest fstr st p)) ps)"
    by (intro Cons.IH ingest_good) simp_all
  then show ?case
    by (simp add: ingest_all_def)
qed

lemma plain_names_keep_files_aligned:
  assumes "list_all plain_names ps" and "csvs (ingest_all fstr empty_store ps) path = Some f"
  shows "aligned f"
proof -
  have "all_good fstr empty_store"
    by (simp add: all_good_def empty_store_def)
  then have "all_good fstr (ingest_all fstr empty_store ps)"
    using assms(1) by (rule ingest_all_good)
  then show ?thesis
    using assms(2) by (auto simp: all_good_def good_def)
qed

subsection \<open>The raw file is always there\<close>



end
